theory Spec2Isabelle
  imports Main "HOL-Library.Sublist"
begin

section \<open>Characters and strings\<close>

text \<open>
  A Python \<open>str\<close> is a sequence of code points. The model uses \<^typ>\<open>string\<close>; a
  \<^typ>\<open>char\<close> stands for the code point of the same number, so the model covers the
  text whose code points lie below 256. The two character classes of the \<open>re\<close> module
  that the script uses are written out for that range: \<open>\s\<close> is \<open>str.isspace\<close> and
  \<open>\w\<close> is \<open>str.isalnum\<close> or the underscore.
\<close>

definition is_space :: "char \<Rightarrow> bool" where
  "is_space c =
     (let n = (of_char c :: nat)
      in (9 \<le> n \<and> n \<le> 13) \<or> (28 \<le> n \<and> n \<le> 32) \<or> n = 133 \<or> n = 160)"

definition is_word :: "char \<Rightarrow> bool" where
  "is_word c =
     (let n = (of_char c :: nat)
      in (48 \<le> n \<and> n \<le> 57) \<or> (65 \<le> n \<and> n \<le> 90) \<or> n = 95 \<or> (97 \<le> n \<and> n \<le> 122)
         \<or> n = 170 \<or> n = 178 \<or> n = 179 \<or> n = 181 \<or> n = 185 \<or> n = 186
         \<or> (188 \<le> n \<and> n \<le> 190) \<or> (192 \<le> n \<and> n \<le> 214) \<or> (216 \<le> n \<and> n \<le> 246)
         \<or> 248 \<le> n)"

text \<open>Python's \<open>w in s\<close> on strings: \<open>w\<close> occurs in \<open>s\<close> as a contiguous block.\<close>

definition str_in :: "string \<Rightarrow> string \<Rightarrow> bool" where
  "str_in w s = sublist w s"

text \<open>\<open>content.split('\n')\<close>: always at least one piece, none of which holds a newline.\<close>

fun split_nl :: "string \<Rightarrow> string list" where
  "split_nl [] = [[]]"
| "split_nl (c # cs) =
     (if c = CHR 0x0A then [] # split_nl cs
      else (case split_nl cs of l # ls \<Rightarrow> (c # l) # ls | [] \<Rightarrow> [[c]]))"

text \<open>\<open>'\n'.join(lines)\<close>.\<close>

fun join_nl :: "string list \<Rightarrow> string" where
  "join_nl [] = []"
| "join_nl [l] = l"
| "join_nl (l # ls) = l @ CHR 0x0A # join_nl ls"

section \<open>The regular expressions of the script\<close>

text \<open>
  The patterns of the script use literal characters, the classes \<open>\s\<close>, \<open>\w\<close>,
  \<open>[^)]\<close> and \<open>[{;]\<close>, the assertions \<open>\b\<close> and \<open>^\<close>, sequencing, optional groups
  and the greedy repetitions \<open>*\<close> and \<open>+\<close> of a single class.
\<close>

datatype cls = Chr char | Space | Wordc | NotChr char | OneOf string

fun in_cls :: "cls \<Rightarrow> char \<Rightarrow> bool" where
  "in_cls (Chr c) x = (x = c)"
| "in_cls Space x = is_space x"
| "in_cls Wordc x = is_word x"
| "in_cls (NotChr c) x = (x \<noteq> c)"
| "in_cls (OneOf cs) x = List.member cs x"

datatype re = Eps | Atom cls | Bnd | Bol | Seq re re | Opt re | Star cls | Plus cls

text \<open>
  A position in the subject string: the character just before it (\<open>None\<close> at the start of
  the string) and the text from it on. \<open>\b\<close> holds where exactly one of the two
  neighbours is a word character, the ends of the string counting as non-word.
\<close>

type_synonym pos = "char option \<times> string"

definition word_opt :: "char option \<Rightarrow> bool" where
  "word_opt p = (case p of None \<Rightarrow> False | Some c \<Rightarrow> is_word c)"

definition next_chr :: "string \<Rightarrow> char option" where
  "next_chr s = (case s of [] \<Rightarrow> None | c # _ \<Rightarrow> Some c)"

definition at_boundary :: "pos \<Rightarrow> bool" where
  "at_boundary x = (word_opt (fst x) \<noteq> word_opt (next_chr (snd x)))"

text \<open>
  The positions after 0, 1, 2, ... characters of a class, the longest run first
  (greedy repetition gives the characters back one at a time).
\<close>

fun runs :: "cls \<Rightarrow> pos \<Rightarrow> pos list" where
  "runs k (p, []) = [(p, [])]"
| "runs k (p, c # cs) =
     (if in_cls k c then runs k (Some c, cs) @ [(p, c # cs)] else [(p, c # cs)])"

text \<open>
  \<open>ends r x\<close> lists the positions at which a match of \<open>r\<close> that starts at \<open>x\<close> can end,
  in the order in which the backtracking matcher of \<open>re\<close> tries them.
\<close>

primrec ends :: "re \<Rightarrow> pos \<Rightarrow> pos list" where
  "ends Eps = (\<lambda>x. [x])"
| "ends (Atom k) = (\<lambda>x. case snd x of [] \<Rightarrow> [] | c # cs \<Rightarrow> if in_cls k c then [(Some c, cs)] else [])"
| "ends Bnd = (\<lambda>x. if at_boundary x then [x] else [])"
| "ends Bol = (\<lambda>x. if fst x = None then [x] else [])"
| "ends (Seq a b) = (\<lambda>x. concat (map (ends b) (ends a x)))"
| "ends (Opt a) = (\<lambda>x. ends a x @ [x])"
| "ends (Star k) = (\<lambda>x. runs k x)"
| "ends (Plus k) = (\<lambda>x. case snd x of [] \<Rightarrow> [] | c # cs \<Rightarrow> if in_cls k c then runs k (Some c, cs) else [])"

definition lits :: "string \<Rightarrow> re" where
  "lits w = foldr (\<lambda>c r. Seq (Atom (Chr c)) r) w Eps"

definition seqs :: "re list \<Rightarrow> re" where
  "seqs rs = foldr Seq rs Eps"

text \<open>\<open>re.match(r, s)\<close> as a truth value: a match that starts at the start of \<open>s\<close>.\<close>

definition re_match :: "re \<Rightarrow> string \<Rightarrow> bool" where
  "re_match r s = (ends r (None, s) \<noteq> [])"

text \<open>\<open>re.search(r, s)\<close> as a truth value: a match that starts anywhere in \<open>s\<close>.\<close>

fun search_from :: "re \<Rightarrow> pos \<Rightarrow> bool" where
  "search_from r (p, []) = (ends r (p, []) \<noteq> [])"
| "search_from r (p, c # cs) = (ends r (p, c # cs) \<noteq> [] \<or> search_from r (Some c, cs))"

definition re_search :: "re \<Rightarrow> string \<Rightarrow> bool" where
  "re_search r s = search_from r (None, s)"

text \<open>
  The scan shared by \<open>re.sub\<close> and \<open>re.finditer\<close>: at each position the first end the
  matcher finds is taken and the scan goes on behind the match; where nothing matches,
  one character is passed over. After an empty match the next match at the same place
  must be non-empty (the flag \<open>adv\<close>), as in Python 3.7 and later.
\<close>

definition first_end :: "re \<Rightarrow> bool \<Rightarrow> pos \<Rightarrow> pos option" where
  "first_end r adv x =
     (case filter (\<lambda>y. \<not> adv \<or> length (snd y) < length (snd x)) (ends r x) of
        [] \<Rightarrow> None | y # _ \<Rightarrow> Some y)"

lemma first_end_adv:
  "first_end r True x = Some y \<Longrightarrow> length (snd y) < length (snd x)"
proof -
  assume "first_end r True x = Some y"
  then obtain ys where "filter (\<lambda>y. length (snd y) < length (snd x)) (ends r x) = y # ys"
    by (auto simp: first_end_def split: list.splits)
  then show ?thesis
    by (auto dest: Cons_eq_filterD [OF sym])
qed

function sub_from :: "re \<Rightarrow> string \<Rightarrow> bool \<Rightarrow> pos \<Rightarrow> string" where
  "sub_from r repl adv (p, s) =
     (case first_end r adv (p, s) of
        None \<Rightarrow> (case s of [] \<Rightarrow> [] | c # cs \<Rightarrow> c # sub_from r repl False (Some c, cs))
      | Some (p', s') \<Rightarrow>
          repl @ (if length s' < length s then sub_from r repl False (p', s')
                  else sub_from r repl True (p, s)))"
  by pat_completeness auto
termination
proof (relation "measure (\<lambda>(r, repl, adv, p, s). 2 * length s + (if adv then 0 else 1))")
  fix r :: re and repl :: string and adv :: bool and p :: "char option" and s :: string
    and y :: pos and p' :: "char option" and s' :: string
  assume "first_end r adv (p, s) = Some y" "(p', s') = y" "\<not> length s' < length s"
  then have "\<not> adv"
    using first_end_adv [of r "(p, s)" y] by (cases adv) auto
  then show "((r, repl, True, p, s), (r, repl, adv, p, s))
      \<in> measure (\<lambda>(r, repl, adv, p, s). 2 * length s + (if adv then 0 else 1))"
    by simp
qed auto

text \<open>\<open>re.sub(r, repl, s)\<close> for a replacement text without backslashes.\<close>

definition re_sub :: "re \<Rightarrow> string \<Rightarrow> string \<Rightarrow> string" where
  "re_sub r repl s = sub_from r repl False (None, s)"

section \<open>The tables\<close>

text \<open>
  \<open>TYPE_MAPPINGS\<close>, in the order of the dictionary. Every key of the dictionary has the
  form \<open>\bNAME\b\<close>; the table holds \<open>NAME\<close>, \<open>type_pattern\<close> gives the expression and
  \<open>pattern_len\<close> the length of the key as written (\<open>\b\<close> is two characters).
\<close>

definition TYPE_MAPPINGS :: "(string \<times> string) list" where
  "TYPE_MAPPINGS =
     [(''int'', ''cforge_int_t''),
      (''unsigned int'', ''cforge_uint_t''),
      (''signed int'', ''cforge_int_t''),
      (''unsigned char'', ''cforge_byte_t''),
      (''signed char'', ''cforge_sbyte_t''),
      (''unsigned short'', ''cforge_ushort_t''),
      (''signed short'', ''cforge_short_t''),
      (''unsigned long long'', ''cforge_ulong_t''),
      (''signed long long'', ''cforge_long_t''),
      (''long long'', ''cforge_long_t''),
      (''float'', ''cforge_float_t''),
      (''double'', ''cforge_double_t''),
      (''long double'', ''cforge_ldouble_t''),
      (''size_t'', ''cforge_size_t'')]"

definition type_pattern :: "string \<Rightarrow> re" where
  "type_pattern w = Seq Bnd (Seq (lits w) Bnd)"

definition pattern_len :: "string \<Rightarrow> nat" where
  "pattern_len w = 2 + length w + 2"

definition SKIP_PATTERNS :: "re list" where
  "SKIP_PATTERNS =
     [lits ''#include'',
      lits ''#define'',
      lits ''typedef'',
      Seq (lits ''using'') (Plus Space),
      lits ''static_cast<'',
      lits ''dynamic_cast<'',
      lits ''reinterpret_cast<'',
      lits ''const_cast<'',
      lits ''std::'',
      lits ''fmt::'',
      lits ''toml::'',
      lits ''cforge_'']"

section \<open>The line classifier\<close>

definition should_skip_line :: "string \<Rightarrow> bool" where
  "should_skip_line line = list_ex (\<lambda>pattern. re_search pattern line) SKIP_PATTERNS"

section \<open>The rewrite of one file's content\<close>

text \<open>
  \<open>sorted(TYPE_MAPPINGS.items(), key=lambda x: len(x[0]), reverse=True)\<close>: a stable sort
  by falling length of the key; \<open>reverse=True\<close> keeps entries of equal length in their
  original order.
\<close>

definition sorted_mappings :: "(string \<times> string) list" where
  "sorted_mappings = sort_key (\<lambda>x. - int (pattern_len (fst x))) TYPE_MAPPINGS"

text \<open>
  One turn of the inner loop of \<open>replace_types_in_file\<close>: the state is the line as
  rewritten so far and the change counter.
\<close>

definition apply_mapping :: "string \<times> string \<Rightarrow> string \<times> nat \<Rightarrow> string \<times> nat" where
  "apply_mapping m st =
     (let new_line = fst st; changes = snd st
      in if re_search (type_pattern (fst m)) new_line then
           if str_in ''std::'' new_line then (new_line, changes)
           else
             (let old_line = new_line;
                  new_line = re_sub (type_pattern (fst m)) (snd m) new_line
              in if old_line \<noteq> new_line then (new_line, changes + 1) else (new_line, changes))
         else (new_line, changes))"

definition apply_mappings :: "(string \<times> string) list \<Rightarrow> string \<times> nat \<Rightarrow> string \<times> nat" where
  "apply_mappings ms st = fold apply_mapping ms st"

text \<open>The body of the loop over the lines: the new line and the counter after it.\<close>

definition rewrite_line :: "string \<Rightarrow> nat \<Rightarrow> string \<times> nat" where
  "rewrite_line line changes =
     (if \<not> should_skip_line line then apply_mappings sorted_mappings (line, changes)
      else (line, changes))"

fun rewrite_lines :: "string list \<Rightarrow> nat \<Rightarrow> string list \<times> nat" where
  "rewrite_lines [] changes = ([], changes)"
| "rewrite_lines (line # ls) changes =
     (let (new_line, changes') = rewrite_line line changes;
          (new_lines, changes'') = rewrite_lines ls changes'
      in (new_line # new_lines, changes''))"

text \<open>
  The pure part of \<open>replace_types_in_file\<close>: from the content read, the content that
  would be written and the number of changes.
\<close>

definition rewrite_content :: "string \<Rightarrow> string \<times> nat" where
  "rewrite_content content =
     (let (new_lines, changes) = rewrite_lines (split_nl content) 0
      in (join_nl new_lines, changes))"

section \<open>The scan for bare types\<close>

text \<open>
  \<open>re.finditer(r, s)\<close>: the matches of the same scan, each as the text before the match
  (\<open>line[:match.start()]\<close>, the variable \<open>before\<close> of the script, here \<open>pre\<close>),
  the matched text (\<open>match.group()\<close>) and the text behind it
  (\<open>line[match.end():]\<close>).
\<close>

definition prev_chr :: "string \<Rightarrow> char option" where
  "prev_chr pre = (if pre = [] then None else Some (last pre))"

function finditer_from :: "re \<Rightarrow> bool \<Rightarrow> string \<Rightarrow> string \<Rightarrow> (string \<times> string \<times> string) list" where
  "finditer_from r adv pre s =
     (case first_end r adv (prev_chr pre, s) of
        None \<Rightarrow> (case s of [] \<Rightarrow> [] | c # cs \<Rightarrow> finditer_from r False (pre @ [c]) cs)
      | Some (p', s') \<Rightarrow>
          (pre, take (length s - length s') s, s') #
            (if length s' < length s
             then finditer_from r False (pre @ take (length s - length s') s) s'
             else finditer_from r True pre s))"
  by pat_completeness auto
termination
proof (relation "measure (\<lambda>(r, adv, pre, s). 2 * length s + (if adv then 0 else 1))")
  fix r :: re and adv :: bool and pre :: string and s :: string
    and y :: pos and p' :: "char option" and s' :: string
  assume "first_end r adv (prev_chr pre, s) = Some y" "(p', s') = y" "\<not> length s' < length s"
  then have "\<not> adv"
    using first_end_adv [of r "(prev_chr pre, s)" y] by (cases adv) auto
  then show "((r, True, pre, s), (r, adv, pre, s))
      \<in> measure (\<lambda>(r, adv, pre, s). 2 * length s + (if adv then 0 else 1))"
    by simp
qed auto

definition re_finditer :: "re \<Rightarrow> string \<Rightarrow> (string \<times> string \<times> string) list" where
  "re_finditer r s = finditer_from r False [] s"

text \<open>
  The context checks of \<open>find_bare_types\<close> on the text before a match; \<open>before[-20:]\<close>
  is the last 20 characters, or all of \<open>before\<close> when it is shorter.
\<close>

definition template_guard :: "string \<Rightarrow> bool" where
  "template_guard pre = (str_in ''<'' pre \<and> \<not> str_in ''>'' pre)"

definition aliased_guard :: "string \<Rightarrow> bool" where
  "aliased_guard pre = str_in ''cforge_'' (drop (length pre - 20) pre)"

definition context_accepts :: "string \<Rightarrow> bool" where
  "context_accepts pre =
     (if template_guard pre then False
      else if aliased_guard pre then False
      else True)"

text \<open>The body of the loop over the lines of \<open>find_bare_types\<close>.\<close>

definition bare_types_of_line :: "nat \<Rightarrow> string \<Rightarrow> (nat \<times> string \<times> string) list" where
  "bare_types_of_line line_num line =
     (if should_skip_line line then []
      else concat (map (\<lambda>(w, replacement).
             concat (map (\<lambda>(pre, grp, after).
                       if context_accepts pre then [(line_num, grp, replacement)] else [])
                     (re_finditer (type_pattern w) line)))
           TYPE_MAPPINGS))"

definition find_bare_types :: "string \<Rightarrow> (nat \<times> string \<times> string) list" where
  "find_bare_types content =
     concat (map (\<lambda>(line_num, line). bare_types_of_line line_num line)
                 (enumerate 1 (split_nl content)))"

section \<open>The scan for declarations\<close>

definition declaration_patterns :: "re list" where
  "declaration_patterns =
     [seqs [Bol, lits ''class'', Plus Space, Plus Wordc, Star Space, Atom (OneOf ''{;'')],
      seqs [Bol, lits ''struct'', Plus Space, Plus Wordc, Star Space, Atom (Chr CHR '';'')],
      seqs [Bol, lits ''enum'', Plus Space, Opt (Seq (lits ''class'') (Plus Space)),
            Plus Wordc, Star Space, Atom (OneOf ''{;'')],
      seqs [Bol, Opt (Seq (lits ''static'') (Plus Space)),
            Opt (Seq (lits ''inline'') (Plus Space)),
            Opt (Seq (lits ''const'') (Plus Space)),
            Opt (Seq (Plus Wordc) (lits ''::'')),
            Plus Wordc, Plus Space, Plus Wordc, Star Space,
            Atom (Chr CHR ''(''), Star (NotChr CHR '')''), Atom (Chr CHR '')''),
            Star Space, Atom (Chr CHR '';'')],
      seqs [Bol, lits ''using'', Plus Space, Plus Wordc, Star Space, Atom (Chr CHR ''='')],
      seqs [Bol, lits ''typedef'', Plus Space]]"

definition namespace_pattern :: re where
  "namespace_pattern =
     seqs [Bol, lits ''namespace'', Plus Space, Plus Wordc, Star Space, Atom (Chr CHR ''{'')]"

text \<open>\<open>line.strip()\<close>: white space taken off both ends.\<close>

definition strip :: "string \<Rightarrow> string" where
  "strip s = rev (dropWhile is_space (rev (dropWhile is_space s)))"

text \<open>
  The loop over the declaration patterns for one stripped line: \<open>continue\<close> goes on with
  the next pattern, \<open>break\<close> leaves the loop after the line was appended. The result
  says whether the line was appended.
\<close>

fun reported :: "re list \<Rightarrow> string \<Rightarrow> bool" where
  "reported [] stripped = False"
| "reported (pattern # ps) stripped =
     (if re_match pattern stripped then
        (if str_in ''{'' stripped \<and> \<not> str_in ''}'' stripped then reported ps stripped
         else True)
      else reported ps stripped)"

text \<open>
  The loop over the lines keeps two variables, \<open>in_namespace\<close> and
  \<open>namespace_depth\<close>; \<open>namespace_step\<close> is what one line does to them.
\<close>

definition namespace_step :: "string \<Rightarrow> bool \<times> int \<Rightarrow> bool \<times> int" where
  "namespace_step stripped st =
     (let st1 = (if re_match namespace_pattern stripped then (True, snd st + 1) else st)
      in if stripped = ''}'' \<and> fst st1 then
           (if snd st1 - 1 = 0 then (False, snd st1 - 1) else (fst st1, snd st1 - 1))
         else st1)"

fun declarations_loop :: "(nat \<times> string) list \<Rightarrow> bool \<times> int \<Rightarrow> (nat \<times> string) list" where
  "declarations_loop [] st = []"
| "declarations_loop (numbered # rest) st =
     (let stripped = strip (snd numbered)
      in (if reported declaration_patterns stripped then [(fst numbered, take 80 stripped)] else [])
         @ declarations_loop rest (namespace_step stripped st))"

definition find_declarations_in_source :: "string \<Rightarrow> string list \<Rightarrow> (nat \<times> string) list" where
  "find_declarations_in_source content filepath =
     declarations_loop (enumerate 1 (split_nl content)) (False, 0)"

section \<open>Files\<close>

text \<open>
  A path is the list of its parts. The file system gives for every path what
  \<open>read_text\<close> does there (\<open>Inl\<close> the message of the exception it raises, \<open>Inr\<close> the text)
  and whether \<open>write_text\<close> succeeds, and it keeps the list of the writes carried out,
  oldest first. A write always adds to that list, also when it stores the text the file
  already had: two file systems are equal only if the same writes were carried out, so a
  call that returns the file system it was given has written nothing and has left the
  bytes of every file as they were. What the script prints is a list of messages.
\<close>

type_synonym path = "string list"

datatype entry = Entry (data: "string + string") (writable: bool)

record fs =
  entries :: "path \<Rightarrow> entry"
  written :: "(path \<times> string) list"

datatype exn = Write_failed path

datatype msg =
    Error_reading path string
  | Would_modify path nat
  | Modified path nat
  | Total_changes nat

definition read_text :: "fs \<Rightarrow> path \<Rightarrow> string + string" where
  "read_text files filepath = data (entries files filepath)"

definition write_text :: "fs \<Rightarrow> path \<Rightarrow> string \<Rightarrow> exn + fs" where
  "write_text files filepath content =
     (if writable (entries files filepath) then
        Inr (files\<lparr>entries := (entries files)(filepath := Entry (Inr content) True),
                   written := written files @ [(filepath, content)]\<rparr>)
      else Inl (Write_failed filepath))"

definition SKIP_DIRS :: "string list" where
  "SKIP_DIRS = [''vendor'', ''build'', ''deps'', ''.git'', ''__pycache__'']"

definition SKIP_FILES :: "string list" where
  "SKIP_FILES = [''types.h'', ''constants.h'']"

definition path_name :: "path \<Rightarrow> string" where
  "path_name filepath = (if filepath = [] then [] else last filepath)"

definition should_skip_file :: "path \<Rightarrow> bool" where
  "should_skip_file filepath =
     (if list_ex (\<lambda>part. List.member SKIP_DIRS part) filepath then True
      else if List.member SKIP_FILES (path_name filepath) then True
      else False)"

text \<open>
  \<open>replace_types_in_file\<close>: the file system after the call, what was printed and the
  value returned, or the exception that leaves the function (a failed write is not
  caught).
\<close>

definition replace_types_in_file :: "fs \<Rightarrow> path \<Rightarrow> bool \<Rightarrow> exn + (fs \<times> msg list \<times> nat)" where
  "replace_types_in_file files filepath dry_run =
     (case read_text files filepath of
        Inl e \<Rightarrow> Inr (files, [Error_reading filepath e], 0)
      | Inr content \<Rightarrow>
          (let (new_lines, changes) = rewrite_lines (split_nl content) 0
           in if changes > 0 then
                (let new_content = join_nl new_lines
                 in if \<not> dry_run then
                      (case write_text files filepath new_content of
                         Inl x \<Rightarrow> Inl x
                       | Inr files' \<Rightarrow> Inr (files', [Modified filepath changes], changes))
                    else Inr (files, [Would_modify filepath changes], changes))
              else Inr (files, [], changes)))"

text \<open>
  The loop of \<open>main\<close> for \<open>--replace-types\<close> over the files that \<open>rglob\<close> found, with
  the file system, the output so far and \<open>total_changes\<close>.
\<close>

fun replace_loop :: "path list \<Rightarrow> bool \<Rightarrow> fs \<times> msg list \<times> nat \<Rightarrow> exn + (fs \<times> msg list \<times> nat)" where
  "replace_loop [] dry_run st = Inr st"
| "replace_loop (filepath # rest) dry_run (files, out, total_changes) =
     (if should_skip_file filepath then replace_loop rest dry_run (files, out, total_changes)
      else
        (case replace_types_in_file files filepath dry_run of
           Inl x \<Rightarrow> Inl x
         | Inr (files', printed, changes) \<Rightarrow>
             replace_loop rest dry_run (files', out @ printed, total_changes + changes)))"

definition main_replace_types :: "fs \<Rightarrow> path list \<Rightarrow> bool \<Rightarrow> exn + (fs \<times> msg list)" where
  "main_replace_types files found dry_run =
     (case replace_loop found dry_run (files, [], 0) of
        Inl x \<Rightarrow> Inl x
      | Inr (files', out, total_changes) \<Rightarrow> Inr (files', out @ [Total_changes total_changes]))"

section \<open>Basic facts\<close>

subsection \<open>Strings and lines\<close>

declare sub_from.simps [simp del] finditer_from.simps [simp del]

lemma split_nl_not_Nil: "split_nl s \<noteq> []"
  by (induction s) (auto split: list.splits)

lemma join_split_nl: "join_nl (split_nl s) = s"
proof (induction s)
  case Nil
  then show ?case by simp
next
  case (Cons c cs)
  then show ?case
    by (cases "split_nl cs"; cases "tl (split_nl cs)") (auto split: list.splits)
qed

lemma split_nl_no_newline: "l \<in> set (split_nl s) \<Longrightarrow> CHR 0x0A \<notin> set l"
  by (induction s arbitrary: l) (auto split: list.splits if_splits)

lemma split_nl_line: "CHR 0x0A \<notin> set l \<Longrightarrow> split_nl (l @ CHR 0x0A # s) = l # split_nl s"
  by (induction l) (auto split: list.splits)

lemma split_nl_single: "CHR 0x0A \<notin> set l \<Longrightarrow> split_nl l = [l]"
  by (induction l) (auto split: list.splits)

lemma split_join_nl:
  "ls \<noteq> [] \<Longrightarrow> \<forall>l\<in>set ls. CHR 0x0A \<notin> set l \<Longrightarrow> split_nl (join_nl ls) = ls"
proof (induction ls rule: join_nl.induct)
  case 1
  then show ?case by simp
next
  case (2 l)
  then show ?case by (simp add: split_nl_single)
next
  case (3 l v va)
  then show ?case by (simp add: split_nl_line)
qed

lemma str_in_drop: "str_in w (drop k s) \<Longrightarrow> str_in w s"
  unfolding str_in_def using sublist_drop sublist_order.dual_order.trans by blast

lemma str_in_trans: "str_in a b \<Longrightarrow> str_in b c \<Longrightarrow> str_in a c"
  unfolding str_in_def sublist_def by (metis append.assoc)

subsection \<open>The matcher and the scans\<close>

lemma runs_suffix: "y \<in> set (runs k x) \<Longrightarrow> suffix (snd y) (snd x)"
proof (induction k x rule: runs.induct)
  case (1 k p)
  then show ?case by simp
next
  case (2 k p c cs)
  then show ?case
    by (auto split: if_splits intro: suffix_ConsI)
qed

lemma ends_suffix: "y \<in> set (ends r x) \<Longrightarrow> suffix (snd y) (snd x)"
proof (induction r arbitrary: x y)
  case (Seq a b)
  then obtain z where "z \<in> set (ends a x)" "y \<in> set (ends b z)"
    by auto
  with Seq.IH show ?case
    by (blast intro: suffix_order.trans)
next
  case (Plus k)
  then show ?case
    by (cases x) (auto split: list.splits if_splits dest!: runs_suffix intro: suffix_ConsI)
qed (auto split: list.splits if_splits dest: runs_suffix intro: suffix_ConsI)

lemma first_end_suffix: "first_end r adv x = Some y \<Longrightarrow> suffix (snd y) (snd x)"
proof -
  assume "first_end r adv x = Some y"
  then obtain ys where "filter (\<lambda>y. \<not> adv \<or> length (snd y) < length (snd x)) (ends r x) = y # ys"
    by (auto simp: first_end_def split: list.splits)
  then have "y \<in> set (filter (\<lambda>y. \<not> adv \<or> length (snd y) < length (snd x)) (ends r x))"
    by simp
  then have "y \<in> set (ends r x)"
    by simp
  then show ?thesis
    by (rule ends_suffix)
qed

lemma ends_lits: "ends (lits w) (p, w @ t) \<noteq> []"
  by (induction w arbitrary: p) (auto simp: lits_def)

lemma search_from_append:
  "(\<And>q. ends r (q, s) \<noteq> []) \<Longrightarrow> search_from r (p, a @ s)"
proof (induction a arbitrary: p)
  case Nil
  then show ?case by (cases s) auto
next
  case (Cons c a)
  then show ?case by simp
qed

lemma search_lits: "str_in w s \<Longrightarrow> re_search (lits w) s"
  unfolding str_in_def sublist_def re_search_def
  using search_from_append [of "lits w"] ends_lits by blast

lemma cforge_skips: "str_in ''cforge_'' line \<Longrightarrow> should_skip_line line"
  by (auto simp: should_skip_line_def SKIP_PATTERNS_def dest: search_lits)

lemma sub_from_same_or_repl:
  "sub_from r repl adv (p, s) = s \<or> sublist repl (sub_from r repl adv (p, s))"
proof (induction r repl adv "(p, s)" arbitrary: p s rule: sub_from.induct)
  case (1 r repl adv p s)
  show ?case
  proof (cases "first_end r adv (p, s)")
    case None
    show ?thesis
    proof (cases s)
      case Nil
      with None show ?thesis by (simp add: sub_from.simps)
    next
      case (Cons c cs)
      with None "1.hyps"(1) [OF None Cons] show ?thesis
        by (auto simp: sublist_Cons_right sub_from.simps)
    qed
  next
    case (Some y)
    then show ?thesis
      by (cases y) (simp add: sub_from.simps)
  qed
qed

lemma sub_from_chars: "set (sub_from r repl adv (p, s)) \<subseteq> set repl \<union> set s"
proof (induction r repl adv "(p, s)" arbitrary: p s rule: sub_from.induct)
  case (1 r repl adv p s)
  show ?case
  proof (cases "first_end r adv (p, s)")
    case None
    show ?thesis
    proof (cases s)
      case Nil
      with None show ?thesis by (simp add: sub_from.simps)
    next
      case (Cons c cs)
      with None "1.hyps"(1) [OF None Cons] show ?thesis
        by (auto simp: sub_from.simps)
    qed
  next
    case (Some y)
    obtain p' s' where y: "y = (p', s')"
      by (cases y)
    from first_end_suffix [OF Some] y have sub: "set s' \<subseteq> set s"
      by (auto dest: set_mono_suffix)
    show ?thesis
    proof (cases "length s' < length s")
      case True
      with Some y sub "1.hyps"(2) [OF Some y [symmetric] True] show ?thesis
        by (auto simp: sub_from.simps)
    next
      case False
      with Some y "1.hyps"(3) [OF Some y [symmetric] False] show ?thesis
        by (auto simp: sub_from.simps)
    qed
  qed
qed

lemma finditer_from_pieces:
  "(b, g, a) \<in> set (finditer_from r adv pre s) \<Longrightarrow> b @ g @ a = pre @ s"
proof (induction r adv pre s rule: finditer_from.induct)
  case (1 r adv pre s)
  note mem = "1.prems" [unfolded finditer_from.simps [of r adv pre s]]
  show ?case
  proof (cases "first_end r adv (prev_chr pre, s)")
    case None
    show ?thesis
    proof (cases s)
      case Nil
      with None mem show ?thesis by simp
    next
      case (Cons c cs)
      with None mem "1.IH"(1) [OF None Cons] show ?thesis
        by simp
    qed
  next
    case (Some y)
    obtain p' s' where y: "y = (p', s')"
      by (cases y)
    from first_end_suffix [OF Some] y obtain t where t: "s = t @ s'"
      by (auto simp: suffix_def)
    then have take: "take (length s - length s') s = t"
      by simp
    from mem Some y take
    consider "(b, g, a) = (pre, t, s')"
      | "length s' < length s" "(b, g, a) \<in> set (finditer_from r False (pre @ t) s')"
      | "\<not> length s' < length s" "(b, g, a) \<in> set (finditer_from r True pre s)"
      by (auto split: if_splits)
    then show ?thesis
    proof cases
      case 1
      with t show ?thesis by simp
    next
      case 2
      with "1.IH"(2) [OF Some y [symmetric] 2(1)] take t show ?thesis
        by simp
    next
      case 3
      with "1.IH"(3) [OF Some y [symmetric] 3(1)] show ?thesis
        by simp
    qed
  qed
qed

lemma re_finditer_pieces:
  "(b, g, a) \<in> set (re_finditer r line) \<Longrightarrow> line = b @ g @ a"
  using finditer_from_pieces [of b g a r False "[]" line] by (simp add: re_finditer_def)

lemma re_sub_same_or_repl: "re_sub r repl s = s \<or> str_in repl (re_sub r repl s)"
  using sub_from_same_or_repl [of r repl False None s] by (simp add: re_sub_def str_in_def)

lemma re_sub_chars: "set (re_sub r repl s) \<subseteq> set repl \<union> set s"
  using sub_from_chars [of r repl False None s] by (simp add: re_sub_def)

lemma no_alias_before:
  assumes "\<not> should_skip_line line" and "(pre, grp, after) \<in> set (re_finditer r line)"
  shows "\<not> aliased_guard pre"
proof
  assume "aliased_guard pre"
  then have "str_in ''cforge_'' pre"
    unfolding aliased_guard_def by (rule str_in_drop)
  moreover from assms(2) have "line = pre @ grp @ after"
    by (rule re_finditer_pieces)
  ultimately have "str_in ''cforge_'' line"
    unfolding str_in_def using sublist_order.dual_order.trans by (metis prefix_imp_sublist prefixI)
  with assms(1) show False
    by (auto dest: cforge_skips)
qed

subsection \<open>Patterns of the form \<open>\bNAME\b\<close>\<close>

lemma ends_lits_eq:
  "ends (lits w) (p, s) =
     (if prefix w s then [(if w = [] then p else Some (last w), drop (length w) s)] else [])"
proof (induction w arbitrary: p s)
  case Nil
  then show ?case by (simp add: lits_def)
next
  case (Cons c w)
  have unfold: "lits (c # w) = Seq (Atom (Chr c)) (lits w)"
    by (simp add: lits_def)
  show ?case
  proof (cases s)
    case Nil
    then show ?thesis by (simp add: unfold)
  next
    case (Cons d t)
    then show ?thesis
      using Cons.IH [of "Some c" t] by (auto simp: unfold)
  qed
qed

lemma ends_type_pattern:
  "w \<noteq> [] \<Longrightarrow>
   ends (type_pattern w) (p, s) =
     (if at_boundary (p, s) \<and> prefix w s \<and> at_boundary (Some (last w), drop (length w) s)
      then [(Some (last w), drop (length w) s)] else [])"
  by (simp add: type_pattern_def ends_lits_eq)

lemma first_end_type_pattern:
  "w \<noteq> [] \<Longrightarrow>
   first_end (type_pattern w) adv (p, s) =
     (if at_boundary (p, s) \<and> prefix w s \<and> at_boundary (Some (last w), drop (length w) s)
      then Some (Some (last w), drop (length w) s) else None)"
  by (auto simp: first_end_def ends_type_pattern prefix_def)

lemma sub_from_None:
  "first_end r adv (p, s) = None \<Longrightarrow>
     sub_from r repl adv (p, s) =
       (case s of [] \<Rightarrow> [] | c # cs \<Rightarrow> c # sub_from r repl False (Some c, cs))"
  by (simp add: sub_from.simps [of r repl adv p s])

lemma sub_from_Some:
  "first_end r adv (p, s) = Some (p', s') \<Longrightarrow> length s' < length s \<Longrightarrow>
     sub_from r repl adv (p, s) = repl @ sub_from r repl False (p', s')"
  by (simp add: sub_from.simps [of r repl adv p s])

lemma sub_from_word_run:
  "list_all is_word t \<Longrightarrow> is_word q \<Longrightarrow> w \<noteq> [] \<Longrightarrow>
     \<exists>rest. sub_from (type_pattern w) repl adv (Some q, t @ v) = t @ rest"
proof (induction t arbitrary: q adv)
  case Nil
  then show ?case by simp
next
  case (Cons c t)
  from Cons.prems have c: "is_word c" and t: "list_all is_word t"
    by simp_all
  from Cons.prems c have "first_end (type_pattern w) adv (Some q, c # t @ v) = None"
    by (simp add: first_end_type_pattern at_boundary_def word_opt_def next_chr_def)
  then have "sub_from (type_pattern w) repl adv (Some q, c # t @ v) =
      c # sub_from (type_pattern w) repl False (Some c, t @ v)"
    by (simp add: sub_from_None)
  with Cons.IH [OF t c Cons.prems(3), of False] show ?case
    by auto
qed

lemma match_stops_before_token:
  assumes w: "w \<noteq> []" and T: "list_all is_word T" and notin: "\<not> sublist T w"
    and pre: "prefix w (u @ T @ v)"
    and bnd: "at_boundary (Some (last w), drop (length w) (u @ T @ v))"
  shows "length w \<le> length u"
proof (rule ccontr)
  assume "\<not> length w \<le> length u"
  then have long: "length u < length w"
    by simp
  from pre obtain r where s: "u @ T @ v = w @ r"
    by (auto simp: prefix_def)
  define x where "x = drop (length u) w"
  from s long have wx: "w = u @ x"
    unfolding x_def by (metis append_eq_conv_conj less_imp_le_nat take_all_iff append_eq_append_conv_if)
  with long have x: "x \<noteq> []"
    by auto
  from s wx have rest: "T @ v = x @ r"
    by simp
  show False
  proof (cases "length T \<le> length x")
    case True
    with rest have "take (length T) x = T"
      by (metis append_eq_conv_conj take_append diff_is_0_eq take_0 append_Nil2)
    then have "x = T @ drop (length T) x"
      by (metis append_take_drop_id)
    with wx have "w = u @ T @ drop (length T) x"
      by simp
    with notin show False
      unfolding sublist_def by blast
  next
    case False
    then have short: "length x < length T"
      by simp
    define z where "z = drop (length x) T"
    from rest short have Tz: "T = x @ z"
      unfolding z_def by (metis append_eq_conv_conj append_take_drop_id less_imp_le_nat take_append take_all_iff diff_is_0_eq take_0 append_Nil2)
    with short have z: "z \<noteq> []"
      by auto
    from wx x have lastw: "last w = last x"
      by simp
    from Tz x T have "is_word (last x)"
      by (auto simp: list_all_iff)
    moreover from Tz z T have "is_word (hd z)"
      by (cases z) (auto simp: list_all_iff)
    moreover from wx Tz have "drop (length w) (u @ T @ v) = z @ v"
      by simp
    ultimately show False
      using bnd lastw z by (cases z) (auto simp: at_boundary_def word_opt_def next_chr_def)
  qed
qed

lemma sub_from_keeps_token:
  assumes w: "w \<noteq> []" and T0: "T \<noteq> []" and T: "list_all is_word T" and notin: "\<not> sublist T w"
  shows "sublist T (sub_from (type_pattern w) repl adv (p, u @ T @ v))"
proof (induction "length u" arbitrary: u p adv rule: less_induct)
  case less
  let ?r = "type_pattern w"
  let ?s = "u @ T @ v"
  show ?case
  proof (cases "first_end ?r adv (p, ?s)")
    case None
    show ?thesis
    proof (cases u)
      case Nil
      from T0 obtain t0 T' where TT: "T = t0 # T'"
        by (cases T) auto
      with T have t0: "is_word t0" and T': "list_all is_word T'"
        by simp_all
      from sub_from_word_run [OF T' t0 w, of repl False v]
      obtain rest where "sub_from ?r repl False (Some t0, T' @ v) = T' @ rest"
        by blast
      with None Nil TT have "sub_from ?r repl adv (p, ?s) = T @ rest"
        by (simp add: sub_from_None)
      then show ?thesis
        by simp
    next
      case (Cons c u')
      with None have "sub_from ?r repl adv (p, ?s) = c # sub_from ?r repl False (Some c, u' @ T @ v)"
        by (simp add: sub_from_None)
      moreover have "sublist T (sub_from ?r repl False (Some c, u' @ T @ v))"
        by (rule less) (simp add: Cons)
      ultimately show ?thesis
        by (simp add: sublist_Cons_right)
    qed
  next
    case (Some y)
    with w have pre: "prefix w ?s"
      and bnd: "at_boundary (Some (last w), drop (length w) ?s)"
      and y: "y = (Some (last w), drop (length w) ?s)"
      by (auto simp: first_end_type_pattern split: if_splits)
    from match_stops_before_token [OF w T notin pre bnd] have le: "length w \<le> length u" .
    from pre obtain r where "u @ T @ v = w @ r"
      by (auto simp: prefix_def)
    with le have "take (length w) u = w"
      by (metis append_eq_conv_conj take_append diff_is_0_eq take_0 append_Nil2)
    then obtain u' where u: "u = w @ u'"
      by (metis append_take_drop_id)
    with w have shorter: "length u' < length u"
      by simp
    from u have drop: "drop (length w) ?s = u' @ T @ v"
      by simp
    from w u have "length (u' @ T @ v) < length ?s"
      by simp
    with Some y drop have "sub_from ?r repl adv (p, ?s) =
        repl @ sub_from ?r repl False (Some (last w), u' @ T @ v)"
      by (simp add: sub_from_Some)
    moreover have "sublist T (sub_from ?r repl False (Some (last w), u' @ T @ v))"
      by (rule less) (rule shorter)
    ultimately show ?thesis
      by (simp add: sublist_append)
  qed
qed

lemma re_sub_keeps_token:
  assumes "w \<noteq> []" "T \<noteq> []" "list_all is_word T" "\<not> sublist T w" "str_in T s"
  shows "str_in T (re_sub (type_pattern w) repl s)"
proof -
  from assms(5) obtain u v where "s = u @ T @ v"
    by (auto simp: str_in_def sublist_def)
  with sub_from_keeps_token [OF assms(1-4), of repl False None u v] show ?thesis
    by (simp add: re_sub_def str_in_def)
qed

lemma sub_from_prev_irrelevant:
  assumes "w \<noteq> []" "is_word (hd w)" "post = [] \<or> \<not> is_word (hd post)"
  shows "sub_from (type_pattern w) repl False (q, post) = sub_from (type_pattern w) repl False (None, post)"
proof (cases post)
  case Nil
  with assms(1) show ?thesis
    by (simp add: sub_from_None first_end_type_pattern)
next
  case (Cons c t)
  with assms have "\<not> prefix w (c # t)"
    by (cases w) auto
  with assms(1) Cons show ?thesis
    by (simp add: sub_from_None first_end_type_pattern)
qed

lemma occurrence_match_iff:
  assumes w: "w \<noteq> []" and once: "hd w \<notin> set (tl w)"
    and u: "u \<noteq> []" "\<not> is_word (last u)" and lw: "is_word (last w)"
  shows "(prefix w (u @ w @ post) \<and> at_boundary (Some (last w), drop (length w) (u @ w @ post))) \<longleftrightarrow>
         (prefix w u \<and> at_boundary (Some (last w), drop (length w) u))"
proof -
  have neq: "u \<noteq> w"
    using u lw by auto
  have inside: "prefix w u" if "prefix w (u @ w @ post)"
  proof (rule ccontr)
    assume no: "\<not> prefix w u"
    from that obtain r where s: "u @ w @ post = w @ r"
      by (auto simp: prefix_def)
    have long: "length u < length w"
    proof (rule ccontr)
      assume "\<not> length u < length w"
      then have "length w \<le> length u"
        by simp
      with s have "take (length w) u = w"
        by (metis append_eq_conv_conj take_append diff_is_0_eq take_0 append_Nil2)
      then have "prefix w u"
        by (metis take_is_prefix)
      with no show False ..
    qed
    define k where "k = length u"
    from u(1) long have k: "0 < k" "k < length w"
      by (simp_all add: k_def)
    from s have "(u @ w @ post) ! k = (w @ r) ! k"
      by simp
    with k w have "hd w = w ! k"
      by (simp add: k_def nth_append hd_conv_nth)
    moreover from k have "w ! k \<in> set (tl w)"
      by (cases w) (auto simp: nth_Cons' )
    ultimately show False
      using once by simp
  qed
  show ?thesis
  proof
    assume a: "prefix w (u @ w @ post) \<and> at_boundary (Some (last w), drop (length w) (u @ w @ post))"
    then have p: "prefix w u"
      using inside by blast
    then obtain u' where uu: "u = w @ u'"
      by (auto simp: prefix_def)
    with neq have "u' \<noteq> []"
      by auto
    with a uu p show "prefix w u \<and> at_boundary (Some (last w), drop (length w) u)"
      by (cases u') (auto simp: at_boundary_def next_chr_def)
  next
    assume a: "prefix w u \<and> at_boundary (Some (last w), drop (length w) u)"
    then obtain u' where uu: "u = w @ u'"
      by (auto simp: prefix_def)
    with neq have "u' \<noteq> []"
      by auto
    with a uu show "prefix w (u @ w @ post) \<and> at_boundary (Some (last w), drop (length w) (u @ w @ post))"
      by (cases u') (auto simp: at_boundary_def next_chr_def)
  qed
qed

lemma sub_from_occurrence:
  assumes w: "w \<noteq> []" and once: "hd w \<notin> set (tl w)"
    and hw: "is_word (hd w)" and lw: "is_word (last w)"
    and post: "post = [] \<or> \<not> is_word (hd post)"
  shows "(u = [] \<longrightarrow> \<not> word_opt p) \<Longrightarrow> (u \<noteq> [] \<longrightarrow> \<not> is_word (last u)) \<Longrightarrow>
     sub_from (type_pattern w) repl adv (p, u @ w @ post) =
       sub_from (type_pattern w) repl adv (p, u) @ repl @
       sub_from (type_pattern w) repl False (Some (last w), post)"
proof (induction "length u" arbitrary: u p adv rule: less_induct)
  case less
  let ?r = "type_pattern w"
  show ?case
  proof (cases u)
    case Nil
    with less.prems have left: "\<not> word_opt p"
      by simp
    from w hw left have b1: "at_boundary (p, w @ post)"
      by (cases w) (auto simp: at_boundary_def next_chr_def word_opt_def)
    from post lw have b2: "at_boundary (Some (last w), post)"
      by (cases post) (auto simp: at_boundary_def next_chr_def word_opt_def)
    from w b1 b2 have "first_end ?r adv (p, w @ post) = Some (Some (last w), post)"
      by (simp add: first_end_type_pattern)
    moreover from w have "length post < length (w @ post)"
      by simp
    ultimately have "sub_from ?r repl adv (p, w @ post) =
        repl @ sub_from ?r repl False (Some (last w), post)"
      by (rule sub_from_Some)
    moreover from w have "sub_from ?r repl adv (p, []) = []"
      by (simp add: sub_from_None first_end_type_pattern)
    ultimately show ?thesis
      using Nil by simp
  next
    case (Cons c u')
    with less.prems have u: "u \<noteq> []" "\<not> is_word (last u)"
      by simp_all
    have b: "at_boundary (p, u @ w @ post) = at_boundary (p, u)"
      using Cons by (simp add: at_boundary_def next_chr_def)
    note iff = occurrence_match_iff [OF w once u lw, of post]
    show ?thesis
    proof (cases "at_boundary (p, u) \<and> prefix w u \<and> at_boundary (Some (last w), drop (length w) u)")
      case True
      then obtain u'' where uu: "u = w @ u''"
        by (auto simp: prefix_def)
      from u lw uu have ne: "u'' \<noteq> []"
        by auto
      with uu u have last: "\<not> is_word (last u'')"
        by simp
      from uu w have shorter: "length u'' < length u"
        by simp
      from True w have f2: "first_end ?r adv (p, u) = Some (Some (last w), drop (length w) u)"
        by (simp add: first_end_type_pattern)
      from True iff b w have f1: "first_end ?r adv (p, u @ w @ post) =
          Some (Some (last w), drop (length w) (u @ w @ post))"
        by (simp add: first_end_type_pattern)
      from uu have d1: "drop (length w) (u @ w @ post) = u'' @ w @ post" and d2: "drop (length w) u = u''"
        by simp_all
      from f1 d1 uu w have "sub_from ?r repl adv (p, u @ w @ post) =
          repl @ sub_from ?r repl False (Some (last w), u'' @ w @ post)"
        by (simp add: sub_from_Some)
      moreover from f2 d2 shorter have "sub_from ?r repl adv (p, u) =
          repl @ sub_from ?r repl False (Some (last w), u'')"
        by (simp add: sub_from_Some)
      moreover have "sub_from ?r repl False (Some (last w), u'' @ w @ post) =
          sub_from ?r repl False (Some (last w), u'') @ repl @
          sub_from ?r repl False (Some (last w), post)"
        using ne last by (intro less.hyps [OF shorter]) simp_all
      ultimately show ?thesis
        by simp
    next
      case False
      with w have f2: "first_end ?r adv (p, u) = None"
        by (simp add: first_end_type_pattern)
      from False iff b w have f1: "first_end ?r adv (p, u @ w @ post) = None"
        by (auto simp: first_end_type_pattern)
      from f1 Cons have "sub_from ?r repl adv (p, u @ w @ post) =
          c # sub_from ?r repl False (Some c, u' @ w @ post)"
        by (simp add: sub_from_None)
      moreover from f2 Cons have "sub_from ?r repl adv (p, u) =
          c # sub_from ?r repl False (Some c, u')"
        by (simp add: sub_from_None)
      moreover have "sub_from ?r repl False (Some c, u' @ w @ post) =
          sub_from ?r repl False (Some c, u') @ repl @
          sub_from ?r repl False (Some (last w), post)"
      proof (rule less.hyps)
        show "length u' < length u"
          using Cons by simp
        show "u' = [] \<longrightarrow> \<not> word_opt (Some c)"
          using Cons u by (auto simp: word_opt_def)
        show "u' \<noteq> [] \<longrightarrow> \<not> is_word (last u')"
          using Cons u by auto
      qed
      ultimately show ?thesis
        by simp
    qed
  qed
qed

lemma re_sub_occurrence:
  assumes "w \<noteq> []" "hd w \<notin> set (tl w)" "is_word (hd w)" "is_word (last w)"
    and "pre = [] \<or> \<not> is_word (last pre)" and "post = [] \<or> \<not> is_word (hd post)"
  shows "re_sub (type_pattern w) repl (pre @ w @ post) =
     re_sub (type_pattern w) repl pre @ repl @ re_sub (type_pattern w) repl post"
proof -
  have "sub_from (type_pattern w) repl False (None, pre @ w @ post) =
       sub_from (type_pattern w) repl False (None, pre) @ repl @
       sub_from (type_pattern w) repl False (Some (last w), post)"
    using assms(5) by (intro sub_from_occurrence [OF assms(1-4) assms(6)]) (auto simp: word_opt_def)
  with sub_from_prev_irrelevant [OF assms(1) assms(3) assms(6), of repl "Some (last w)"]
  show ?thesis
    by (simp add: re_sub_def)
qed

lemma search_from_occurrence:
  assumes w: "w \<noteq> []" and hw: "is_word (hd w)" and lw: "is_word (last w)"
    and post: "post = [] \<or> \<not> is_word (hd post)"
  shows "(u = [] \<longrightarrow> \<not> word_opt p) \<Longrightarrow> (u \<noteq> [] \<longrightarrow> \<not> is_word (last u)) \<Longrightarrow>
     search_from (type_pattern w) (p, u @ w @ post)"
proof (induction u arbitrary: p)
  case Nil
  then have left: "\<not> word_opt p"
    by simp
  from w hw left have b1: "at_boundary (p, w @ post)"
    by (cases w) (auto simp: at_boundary_def next_chr_def word_opt_def)
  from post lw have b2: "at_boundary (Some (last w), post)"
    by (cases post) (auto simp: at_boundary_def next_chr_def word_opt_def)
  from w b1 b2 have "ends (type_pattern w) (p, w @ post) \<noteq> []"
    by (simp add: ends_type_pattern)
  then show ?case
    by (cases "w @ post") auto
next
  case (Cons c u)
  have "search_from (type_pattern w) (Some c, u @ w @ post)"
  proof (rule Cons.IH)
    show "u = [] \<longrightarrow> \<not> word_opt (Some c)"
      using Cons.prems by (auto simp: word_opt_def)
    show "u \<noteq> [] \<longrightarrow> \<not> is_word (last u)"
      using Cons.prems by auto
  qed
  then show ?case
    by simp
qed

subsection \<open>The rewrite of a line\<close>

lemma rewrite_lines_append:
  "rewrite_lines (xs @ ys) c =
     (fst (rewrite_lines xs c) @ fst (rewrite_lines ys (snd (rewrite_lines xs c))),
      snd (rewrite_lines ys (snd (rewrite_lines xs c))))"
  by (induction xs arbitrary: c) (auto split: prod.splits)

lemma set_sorted_mappings: "set sorted_mappings = set TYPE_MAPPINGS"
  by (simp add: sorted_mappings_def)

lemma replacement_has_prefix:
  "m \<in> set sorted_mappings \<Longrightarrow> str_in ''cforge_'' (snd m) \<and> CHR 0x0A \<notin> set (snd m)"
proof -
  have "list_all (\<lambda>m. str_in ''cforge_'' (snd m) \<and> CHR 0x0A \<notin> set (snd m)) TYPE_MAPPINGS"
    by code_simp
  then show "m \<in> set sorted_mappings \<Longrightarrow> str_in ''cforge_'' (snd m) \<and> CHR 0x0A \<notin> set (snd m)"
    by (simp add: set_sorted_mappings list_all_iff)
qed

lemma apply_mapping_cases:
  assumes "str_in ''cforge_'' (snd m)"
  shows "apply_mapping m (l, c) = (l, c) \<or>
         (str_in ''cforge_'' (fst (apply_mapping m (l, c))) \<and> snd (apply_mapping m (l, c)) = c + 1)"
  using assms re_sub_same_or_repl [of "type_pattern (fst m)" "snd m" l]
  by (auto simp: apply_mapping_def Let_def intro: str_in_trans)

lemma apply_mapping_chars:
  "set (fst (apply_mapping m (l, c))) \<subseteq> set (snd m) \<union> set l"
  using re_sub_chars [of "type_pattern (fst m)" "snd m" l]
  by (auto simp: apply_mapping_def Let_def)

lemma apply_mapping_shift:
  "apply_mapping m (l, c + d) = (fst (apply_mapping m (l, c)), snd (apply_mapping m (l, c)) + d)"
  by (simp add: apply_mapping_def Let_def)

lemma apply_mappings_Cons:
  "apply_mappings (m # ms) st = apply_mappings ms (apply_mapping m st)"
  by (simp add: apply_mappings_def)

lemma apply_mappings_cases:
  assumes "\<forall>m\<in>set ms. str_in ''cforge_'' (snd m)"
  shows "apply_mappings ms (l, c) = (l, c) \<or>
         (str_in ''cforge_'' (fst (apply_mappings ms (l, c))) \<and> c < snd (apply_mappings ms (l, c)))"
  using assms
proof (induction ms arbitrary: l c)
  case Nil
  then show ?case by (simp add: apply_mappings_def)
next
  case (Cons m ms)
  obtain l1 c1 where step: "apply_mapping m (l, c) = (l1, c1)"
    by (cases "apply_mapping m (l, c)")
  from Cons.prems have m: "str_in ''cforge_'' (snd m)" and ms: "\<forall>m\<in>set ms. str_in ''cforge_'' (snd m)"
    by simp_all
  from apply_mapping_cases [OF m, of l c] step
  have first: "(l1 = l \<and> c1 = c) \<or> (str_in ''cforge_'' l1 \<and> c1 = c + 1)"
    by auto
  from Cons.IH [OF ms, of l1 c1]
  have rest: "apply_mappings ms (l1, c1) = (l1, c1) \<or>
         (str_in ''cforge_'' (fst (apply_mappings ms (l1, c1))) \<and> c1 < snd (apply_mappings ms (l1, c1)))" .
  from first rest show ?case
    unfolding apply_mappings_Cons step by auto
qed

lemma apply_mappings_shift:
  "apply_mappings ms (l, c + d) =
     (fst (apply_mappings ms (l, c)), snd (apply_mappings ms (l, c)) + d)"
proof (induction ms arbitrary: l c)
  case Nil
  then show ?case by (simp add: apply_mappings_def)
next
  case (Cons m ms)
  obtain l1 c1 where step: "apply_mapping m (l, c) = (l1, c1)"
    by (cases "apply_mapping m (l, c)")
  then have "apply_mapping m (l, c + d) = (l1, c1 + d)"
    using apply_mapping_shift [of m l c d] by simp
  with step Cons.IH [of l1 c1] show ?case
    by (simp add: apply_mappings_Cons)
qed

lemma apply_mappings_chars:
  "set (fst (apply_mappings ms (l, c))) \<subseteq> (\<Union>m\<in>set ms. set (snd m)) \<union> set l"
proof (induction ms arbitrary: l c)
  case Nil
  then show ?case by (simp add: apply_mappings_def)
next
  case (Cons m ms)
  obtain l1 c1 where step: "apply_mapping m (l, c) = (l1, c1)"
    by (cases "apply_mapping m (l, c)")
  with apply_mapping_chars [of m l c] have "set l1 \<subseteq> set (snd m) \<union> set l"
    by simp
  with step Cons.IH [of l1 c1] show ?case
    by (auto simp: apply_mappings_Cons)
qed

lemma rewrite_line_cases:
  "rewrite_line l c = (l, c) \<or>
   (should_skip_line (fst (rewrite_line l c)) \<and> c < snd (rewrite_line l c))"
  using apply_mappings_cases [of sorted_mappings l c] replacement_has_prefix
  by (auto simp: rewrite_line_def dest: cforge_skips)

lemma rewrite_line_shift:
  "rewrite_line l (c + d) = (fst (rewrite_line l c), snd (rewrite_line l c) + d)"
  by (simp add: rewrite_line_def apply_mappings_shift)

lemma rewrite_line_fixed: "rewrite_line l c = (l, c) \<Longrightarrow> rewrite_line l d = (l, d)"
proof -
  assume a: "rewrite_line l c = (l, c)"
  from rewrite_line_shift [of l 0 c] a have "rewrite_line l 0 = (l, 0)"
    by (cases "rewrite_line l 0") simp
  with rewrite_line_shift [of l 0 d] show ?thesis
    by simp
qed

lemma rewrite_line_idem:
  "rewrite_line (fst (rewrite_line l c)) d = (fst (rewrite_line l c), d)"
proof -
  from rewrite_line_cases [of l c] show ?thesis
  proof
    assume "rewrite_line l c = (l, c)"
    then show ?thesis
      by (simp add: rewrite_line_fixed)
  next
    assume "should_skip_line (fst (rewrite_line l c)) \<and> c < snd (rewrite_line l c)"
    then show ?thesis
      by (simp add: rewrite_line_def)
  qed
qed

lemma rewrite_line_no_newline:
  "CHR 0x0A \<notin> set l \<Longrightarrow> CHR 0x0A \<notin> set (fst (rewrite_line l c))"
  using apply_mappings_chars [of sorted_mappings l c] replacement_has_prefix
  by (auto simp: rewrite_line_def)

lemma rewrite_lines_idem:
  "rewrite_lines (fst (rewrite_lines ls c)) d = (fst (rewrite_lines ls c), d)"
proof (induction ls arbitrary: c d)
  case Nil
  then show ?case by simp
next
  case (Cons l ls)
  obtain l' c' where line: "rewrite_line l c = (l', c')"
    by (cases "rewrite_line l c")
  obtain ls' c'' where rest: "rewrite_lines ls c' = (ls', c'')"
    by (cases "rewrite_lines ls c'")
  from rewrite_line_idem [of l c d] line have "rewrite_line l' d = (l', d)"
    by simp
  moreover from Cons.IH [of c' d] rest have "rewrite_lines ls' d = (ls', d)"
    by simp
  ultimately show ?case
    using line rest by simp
qed

lemma rewrite_lines_length: "length (fst (rewrite_lines ls c)) = length ls"
  by (induction ls arbitrary: c) (simp_all add: case_prod_beta)

lemma rewrite_lines_no_newline:
  "\<forall>l\<in>set ls. CHR 0x0A \<notin> set l \<Longrightarrow> \<forall>l\<in>set (fst (rewrite_lines ls c)). CHR 0x0A \<notin> set l"
proof (induction ls arbitrary: c)
  case Nil
  then show ?case by simp
next
  case (Cons l ls)
  obtain l' c' where line: "rewrite_line l c = (l', c')"
    by (cases "rewrite_line l c")
  obtain ls' c'' where rest: "rewrite_lines ls c' = (ls', c'')"
    by (cases "rewrite_lines ls c'")
  from Cons.prems rewrite_line_no_newline [of l c] line have "CHR 0x0A \<notin> set l'"
    by simp
  moreover from Cons.prems Cons.IH [of c'] rest have "\<forall>l\<in>set ls'. CHR 0x0A \<notin> set l"
    by simp
  ultimately show ?case
    using line rest by simp
qed

lemma split_join_rewritten:
  "split_nl (join_nl (fst (rewrite_lines (split_nl content) c))) =
     fst (rewrite_lines (split_nl content) c)"
proof (rule split_join_nl)
  show "fst (rewrite_lines (split_nl content) c) \<noteq> []"
    using rewrite_lines_length [of "split_nl content" c] split_nl_not_Nil [of content]
    by (metis length_0_conv)
  show "\<forall>l\<in>set (fst (rewrite_lines (split_nl content) c)). CHR 0x0A \<notin> set l"
    by (rule rewrite_lines_no_newline) (simp add: split_nl_no_newline)
qed

lemma std_skips: "str_in ''std::'' line \<Longrightarrow> should_skip_line line"
  by (auto simp: should_skip_line_def SKIP_PATTERNS_def dest: search_lits)

lemma apply_mapping_keeps_token:
  assumes "fst m \<noteq> []" "\<not> sublist T (fst m)" "T \<noteq> []" "list_all is_word T" "str_in T l"
  shows "str_in T (fst (apply_mapping m (l, c)))"
  using assms re_sub_keeps_token [of "fst m" T l "snd m"]
  by (simp add: apply_mapping_def Let_def)

lemma apply_mappings_keeps_token:
  assumes "\<forall>m\<in>set ms. fst m \<noteq> [] \<and> \<not> sublist T (fst m)" "T \<noteq> []" "list_all is_word T"
  shows "str_in T l \<Longrightarrow> str_in T (fst (apply_mappings ms (l, c)))"
  using assms(1)
proof (induction ms arbitrary: l c)
  case Nil
  then show ?case by (simp add: apply_mappings_def)
next
  case (Cons m ms)
  obtain l1 c1 where step: "apply_mapping m (l, c) = (l1, c1)"
    by (cases "apply_mapping m (l, c)")
  from Cons.prems apply_mapping_keeps_token [of m T l c] assms(2,3) step have "str_in T l1"
    by simp
  with Cons.IH [of l1 c1] Cons.prems(2) step show ?case
    by (simp add: apply_mappings_Cons)
qed

lemma apply_mapping_count: "snd st \<le> snd (apply_mapping m st)"
  by (simp add: apply_mapping_def Let_def)

lemma apply_mappings_count: "snd st \<le> snd (apply_mappings ms st)"
proof (induction ms arbitrary: st)
  case Nil
  then show ?case by (simp add: apply_mappings_def)
next
  case (Cons m ms)
  from apply_mapping_count [of st m] Cons [of "apply_mapping m st"] show ?case
    by (simp add: apply_mappings_Cons)
qed

lemma sorted_mappings_order:
  "sorted_mappings =
     [(''unsigned long long'', ''cforge_ulong_t''),
      (''signed long long'', ''cforge_long_t''),
      (''unsigned short'', ''cforge_ushort_t''),
      (''unsigned char'', ''cforge_byte_t''),
      (''unsigned int'', ''cforge_uint_t''),
      (''signed short'', ''cforge_short_t''),
      (''signed char'', ''cforge_sbyte_t''),
      (''long double'', ''cforge_ldouble_t''),
      (''signed int'', ''cforge_int_t''),
      (''long long'', ''cforge_long_t''),
      (''double'', ''cforge_double_t''),
      (''size_t'', ''cforge_size_t''),
      (''float'', ''cforge_float_t''),
      (''int'', ''cforge_int_t'')]"
  by code_simp

lemma ulong_token_safe:
  "\<forall>m\<in>set sorted_mappings. fst m \<noteq> [] \<and> \<not> sublist ''cforge_ulong_t'' (fst m)"
proof -
  have "list_all (\<lambda>m. fst m \<noteq> [] \<and> \<not> sublist ''cforge_ulong_t'' (fst m)) TYPE_MAPPINGS"
    by code_simp
  then show ?thesis
    by (simp add: set_sorted_mappings list_all_iff)
qed

lemma set_tl_subset: "x \<in> set (tl xs) \<Longrightarrow> x \<in> set xs"
  by (cases xs) auto

lemma apply_mapping_changed:
  "re_search (type_pattern (fst m)) l \<Longrightarrow> \<not> str_in ''std::'' l \<Longrightarrow>
   re_sub (type_pattern (fst m)) (snd m) l = l' \<Longrightarrow> l \<noteq> l' \<Longrightarrow>
     apply_mapping m (l, c) = (l', c + 1)"
  by (simp add: apply_mapping_def Let_def)

lemma apply_mappings_hd_tl:
  "ms \<noteq> [] \<Longrightarrow> apply_mappings ms st = apply_mappings (tl ms) (apply_mapping (hd ms) st)"
  by (cases ms) (simp_all add: apply_mappings_Cons)

lemma hd_sorted_mappings:
  "sorted_mappings \<noteq> [] \<and> hd sorted_mappings = (''unsigned long long'', ''cforge_ulong_t'')"
  by (simp add: sorted_mappings_order)

lemma ulong_word:
  "''unsigned long long'' \<noteq> [] \<and> hd ''unsigned long long'' \<notin> set (tl ''unsigned long long'') \<and>
   is_word (hd ''unsigned long long'') \<and> is_word (last ''unsigned long long'') \<and>
   list_all is_word ''cforge_ulong_t'' \<and> str_in ''cforge_'' ''cforge_ulong_t''"
  by code_simp

lemma ulong_occurrence_replaced:
  assumes noskip: "\<not> should_skip_line (pre @ ''unsigned long long'' @ post)"
    and left: "pre = [] \<or> \<not> is_word (last pre)"
    and right: "post = [] \<or> \<not> is_word (hd post)"
  shows "apply_mapping (hd sorted_mappings) (pre @ ''unsigned long long'' @ post, changes) =
           (re_sub (type_pattern ''unsigned long long'') ''cforge_ulong_t'' pre @ ''cforge_ulong_t'' @
            re_sub (type_pattern ''unsigned long long'') ''cforge_ulong_t'' post, changes + 1) \<and>
         str_in ''cforge_ulong_t'' (fst (rewrite_line (pre @ ''unsigned long long'' @ post) changes)) \<and>
         changes < snd (rewrite_line (pre @ ''unsigned long long'' @ post) changes)"
proof -
  define w where "w = ''unsigned long long''"
  define a where "a = ''cforge_ulong_t''"
  define line where "line = pre @ w @ post"
  define new where "new = re_sub (type_pattern w) a pre @ a @ re_sub (type_pattern w) a post"
  from ulong_word have w: "w \<noteq> []" "hd w \<notin> set (tl w)" "is_word (hd w)" "is_word (last w)"
    and a: "list_all is_word a" "str_in ''cforge_'' a"
    unfolding w_def a_def by blast+
  from hd_sorted_mappings have ne: "sorted_mappings \<noteq> []" and hd: "hd sorted_mappings = (w, a)"
    unfolding w_def a_def by blast+
  from noskip have noskip': "\<not> should_skip_line line"
    unfolding line_def w_def .
  from left have "search_from (type_pattern w) (None, pre @ w @ post)"
    by (intro search_from_occurrence [OF w(1) w(3) w(4) right]) (auto simp: word_opt_def)
  then have found: "re_search (type_pattern w) line"
    by (simp add: re_search_def line_def)
  from noskip' have nostd: "\<not> str_in ''std::'' line"
    using std_skips by blast
  have sub: "re_sub (type_pattern w) a line = new"
    unfolding line_def new_def by (rule re_sub_occurrence [OF w left right])
  have holds: "str_in a new"
    unfolding new_def str_in_def sublist_def by blast
  from a(2) holds have "str_in ''cforge_'' new"
    by (rule str_in_trans)
  then have "should_skip_line new"
    by (rule cforge_skips)
  with noskip' have changed: "line \<noteq> new"
    by auto
  have first: "apply_mapping (hd sorted_mappings) (line, changes) = (new, changes + 1)"
    unfolding hd by (rule apply_mapping_changed) (simp_all add: found nostd sub changed)
  from noskip' have "rewrite_line line changes = apply_mappings sorted_mappings (line, changes)"
    by (simp add: rewrite_line_def)
  with apply_mappings_hd_tl [OF ne, of "(line, changes)"] first
  have rw: "rewrite_line line changes = apply_mappings (tl sorted_mappings) (new, changes + 1)"
    by simp
  have safe: "\<forall>m\<in>set (tl sorted_mappings). fst m \<noteq> [] \<and> \<not> sublist a (fst m)"
    using ulong_token_safe unfolding a_def by (auto dest: set_tl_subset)
  from a(1) have "a \<noteq> []"
    unfolding a_def by simp
  with safe a(1) holds
  have "str_in a (fst (apply_mappings (tl sorted_mappings) (new, changes + 1)))"
    by (intro apply_mappings_keeps_token)
  with rw have kept: "str_in a (fst (rewrite_line line changes))"
    by simp
  from apply_mappings_count [of "(new, changes + 1)" "tl sorted_mappings"] rw
  have more: "changes < snd (rewrite_line line changes)"
    by simp
  from first kept more show ?thesis
    unfolding line_def new_def w_def a_def by blast
qed

lemma second_run:
  assumes run: "replace_types_in_file files filepath False = Inr (files1, printed, changes)"
  shows "replace_types_in_file files1 filepath False =
     Inr (files1, case read_text files filepath of Inl e \<Rightarrow> [Error_reading filepath e] | Inr c \<Rightarrow> [], 0)"
proof (cases "read_text files filepath")
  case (Inl e)
  with run show ?thesis
    by (auto simp: replace_types_in_file_def)
next
  case (Inr content)
  obtain new_lines ch where rw: "rewrite_lines (split_nl content) 0 = (new_lines, ch)"
    by (cases "rewrite_lines (split_nl content) 0")
  show ?thesis
  proof (cases "0 < ch")
    case False
    with run Inr rw show ?thesis
      by (auto simp: replace_types_in_file_def)
  next
    case True
    with run Inr rw have files1: "files1 =
        files\<lparr>entries := (entries files)(filepath := Entry (Inr (join_nl new_lines)) True),
              written := written files @ [(filepath, join_nl new_lines)]\<rparr>"
      by (auto simp: replace_types_in_file_def write_text_def Let_def split: if_splits)
    from rw split_join_rewritten [of content 0] have "split_nl (join_nl new_lines) = new_lines"
      by simp
    moreover from rw rewrite_lines_idem [of "split_nl content" 0 0]
    have "rewrite_lines new_lines 0 = (new_lines, 0)"
      by simp
    ultimately show ?thesis
      using files1 Inr by (simp add: replace_types_in_file_def read_text_def)
  qed
qed

section \<open>The line classifier and the context checks\<close>

text \<open>
  C3. A line that matches a skip pattern is copied as it is and leaves the change
  counter as it was, whatever else the line holds: for the line alone, and for the line
  at any place among the lines of a file.
\<close>

theorem skip_line_copied:
  "should_skip_line line \<Longrightarrow>
     rewrite_line line changes = (line, changes) \<and>
     rewrite_lines (ls1 @ line # ls2) changes =
       (fst (rewrite_lines ls1 changes) @ line #
          fst (rewrite_lines ls2 (snd (rewrite_lines ls1 changes))),
        snd (rewrite_lines ls2 (snd (rewrite_lines ls1 changes))))"
proof -
  assume skip: "should_skip_line line"
  then have copied: "rewrite_line line c = (line, c)" for c
    by (simp add: rewrite_line_def)
  then have "rewrite_lines (line # ls2) c =
      (line # fst (rewrite_lines ls2 c), snd (rewrite_lines ls2 c))" for c
    by (simp add: case_prod_beta)
  with copied show ?thesis
    by (simp add: rewrite_lines_append)
qed

theorem skip_line_copied_witness:
  "should_skip_line ''typedef unsigned int u;'' \<and>
   rewrite_line ''typedef unsigned int u;'' 0 = (''typedef unsigned int u;'', 0) \<and>
   rewrite_lines ([] @ ''typedef unsigned int u;'' # []) 0 = ([''typedef unsigned int u;''], 0)"
proof -
  have skip: "should_skip_line ''typedef unsigned int u;''"
    by code_simp
  show ?thesis
    using skip skip_line_copied [OF skip, of 0 "[]" "[]"] by simp
qed

text \<open>
  C10. A line that the line classifier does not skip holds no \<open>cforge_\<close>; so for every
  match that \<open>find_bare_types\<close> looks at on such a line the check for \<open>cforge_\<close> in the
  20 characters before the match fails, and the occurrence is accepted exactly when the
  template check lets it through.
\<close>

theorem aliased_guard_unreachable:
  "\<not> should_skip_line line \<Longrightarrow>
     \<not> str_in ''cforge_'' line \<and>
     (\<forall>w pre grp after. (pre, grp, after) \<in> set (re_finditer (type_pattern w) line)
        \<longrightarrow> \<not> aliased_guard pre \<and> context_accepts pre = (\<not> template_guard pre))"
proof -
  assume noskip: "\<not> should_skip_line line"
  then have none: "\<not> str_in ''cforge_'' line"
    using cforge_skips by blast
  have "\<not> aliased_guard pre \<and> context_accepts pre = (\<not> template_guard pre)"
    if "(pre, grp, after) \<in> set (re_finditer (type_pattern w) line)" for w pre grp after
  proof -
    from noskip that have "\<not> aliased_guard pre"
      by (rule no_alias_before)
    then show ?thesis
      by (simp add: context_accepts_def)
  qed
  with none show ?thesis
    by blast
qed

theorem aliased_guard_unreachable_witness:
  "\<not> should_skip_line ''long int n;'' \<and>
   \<not> str_in ''cforge_'' ''long int n;'' \<and>
   (''long '', ''int'', '' n;'') \<in> set (re_finditer (type_pattern ''int'') ''long int n;'') \<and>
   \<not> aliased_guard ''long ''"
proof -
  have noskip: "\<not> should_skip_line ''long int n;''"
    by code_simp
  have found: "(''long '', ''int'', '' n;'') \<in> set (re_finditer (type_pattern ''int'') ''long int n;'')"
    by code_simp
  from aliased_guard_unreachable [OF noskip] noskip found show ?thesis
    by blast
qed

text \<open>
  C2. In \<open>if (a > b) foo<int>(x);\<close> the text before \<open>int\<close> ends with a \<open><\<close> that no
  \<open>>\<close> follows, so \<open>int\<close> stands in an open template argument list. The check of
  \<open>find_bare_types\<close> (\<open>'<' in before and '>' not in before\<close>) is switched off by the
  \<open>>\<close> that stands earlier in that text: the occurrence is accepted and reported. On
  \<open>if (a) foo<int>(x);\<close>, the same line without the earlier \<open>>\<close>, it is left out.
\<close>

theorem template_guard_misses_after_gt:
  "\<not> should_skip_line ''if (a > b) foo<int>(x);'' \<and>
   re_finditer (type_pattern ''int'') ''if (a > b) foo<int>(x);'' =
     [(''if (a > b) foo<'', ''int'', ''>(x);'')] \<and>
   context_accepts ''if (a > b) foo<'' \<and>
   find_bare_types ''if (a > b) foo<int>(x);'' = [(1, ''int'', ''cforge_int_t'')] \<and>
   find_bare_types ''if (a) foo<int>(x);'' = []"
  by code_simp

text \<open>
  C1. The line \<open>template<int N> struct Foo;\<close> matches no skip pattern. The scan
  \<open>find_bare_types\<close> reports nothing for it, since the text before \<open>int\<close> holds a
  \<open><\<close> and no \<open>>\<close>; the rewrite of \<open>replace_types_in_file\<close> has no such check,
  replaces \<open>int\<close> and counts one change.
\<close>

theorem template_line_is_rewritten:
  "\<not> should_skip_line ''template<int N> struct Foo;'' \<and>
   find_bare_types ''template<int N> struct Foo;'' = [] \<and>
   rewrite_content ''template<int N> struct Foo;'' =
     (''template<cforge_int_t N> struct Foo;'', 1)"
  by code_simp

section \<open>The rewrite engine\<close>

text \<open>
  C4, as the code has it. The patterns are applied by falling length of the pattern
  text, patterns of equal length in the order of \<open>TYPE_MAPPINGS\<close>: the order is the list
  below, its lengths fall, the entries of any one length stand as in \<open>TYPE_MAPPINGS\<close>,
  and a line that is not skipped goes through the patterns in this order. Consequently,
  on every line that is not skipped and holds \<open>unsigned long long\<close> as a whole word (no
  word character directly before or after it), the first pattern applied replaces that
  occurrence by \<open>cforge_ulong_t\<close>, the text before and behind it being rewritten on its
  own, and the line that comes out of all the patterns holds the alias, the counter
  having grown. The line \<open>unsigned long long x;\<close> becomes \<open>cforge_ulong_t x;\<close>,
  whereas the pattern for \<open>long long\<close> applied first would leave
  \<open>unsigned cforge_long_t x;\<close>.
\<close>

theorem longest_pattern_first:
  "sorted_mappings =
     [(''unsigned long long'', ''cforge_ulong_t''),
      (''signed long long'', ''cforge_long_t''),
      (''unsigned short'', ''cforge_ushort_t''),
      (''unsigned char'', ''cforge_byte_t''),
      (''unsigned int'', ''cforge_uint_t''),
      (''signed short'', ''cforge_short_t''),
      (''signed char'', ''cforge_sbyte_t''),
      (''long double'', ''cforge_ldouble_t''),
      (''signed int'', ''cforge_int_t''),
      (''long long'', ''cforge_long_t''),
      (''double'', ''cforge_double_t''),
      (''size_t'', ''cforge_size_t''),
      (''float'', ''cforge_float_t''),
      (''int'', ''cforge_int_t'')] \<and>
   sorted (rev (map (\<lambda>x. pattern_len (fst x)) sorted_mappings)) \<and>
   (\<forall>k. filter (\<lambda>x. pattern_len (fst x) = k) sorted_mappings =
        filter (\<lambda>x. pattern_len (fst x) = k) TYPE_MAPPINGS) \<and>
   rewrite_line line changes =
     (if should_skip_line line then (line, changes)
      else fold apply_mapping sorted_mappings (line, changes)) \<and>
   (\<not> should_skip_line (pre @ ''unsigned long long'' @ post) \<and>
    (pre = [] \<or> \<not> is_word (last pre)) \<and> (post = [] \<or> \<not> is_word (hd post)) \<longrightarrow>
      apply_mapping (hd sorted_mappings) (pre @ ''unsigned long long'' @ post, changes) =
        (re_sub (type_pattern ''unsigned long long'') ''cforge_ulong_t'' pre @ ''cforge_ulong_t'' @
         re_sub (type_pattern ''unsigned long long'') ''cforge_ulong_t'' post, changes + 1) \<and>
      str_in ''cforge_ulong_t'' (fst (rewrite_line (pre @ ''unsigned long long'' @ post) changes)) \<and>
      changes < snd (rewrite_line (pre @ ''unsigned long long'' @ post) changes)) \<and>
   rewrite_content ''unsigned long long x;'' = (''cforge_ulong_t x;'', 1) \<and>
   apply_mappings [(''long long'', ''cforge_long_t''), (''unsigned long long'', ''cforge_ulong_t'')]
     (''unsigned long long x;'', 0) = (''unsigned cforge_long_t x;'', 1)"
proof -
  have falling: "sorted (rev (map (\<lambda>x. pattern_len (fst x)) sorted_mappings))"
    by code_simp
  have stable: "filter (\<lambda>x. pattern_len (fst x) = k) sorted_mappings =
        filter (\<lambda>x. pattern_len (fst x) = k) TYPE_MAPPINGS" for k
    using sort_key_stable [of "\<lambda>x. - int (pattern_len (fst x))" "- int k" TYPE_MAPPINGS]
    by (simp add: sorted_mappings_def)
  have line: "rewrite_line line changes =
     (if should_skip_line line then (line, changes)
      else fold apply_mapping sorted_mappings (line, changes))"
    by (simp add: rewrite_line_def apply_mappings_def)
  have result: "rewrite_content ''unsigned long long x;'' = (''cforge_ulong_t x;'', 1)"
    by code_simp
  have shorter_first:
    "apply_mappings [(''long long'', ''cforge_long_t''), (''unsigned long long'', ''cforge_ulong_t'')]
       (''unsigned long long x;'', 0) = (''unsigned cforge_long_t x;'', 1)"
    by code_simp
  from sorted_mappings_order falling stable line result shorter_first
    ulong_occurrence_replaced [of pre post changes]
  show ?thesis
    by blast
qed

theorem longest_pattern_first_witness:
  "\<not> should_skip_line ''static unsigned long long n = 0;'' \<and>
   \<not> is_word (last ''static '') \<and> \<not> is_word (hd '' n = 0;'') \<and>
   apply_mapping (hd sorted_mappings) (''static unsigned long long n = 0;'', 0) =
     (''static cforge_ulong_t n = 0;'', 1) \<and>
   str_in ''cforge_ulong_t'' (fst (rewrite_line ''static unsigned long long n = 0;'' 0)) \<and>
   0 < snd (rewrite_line ''static unsigned long long n = 0;'' 0) \<and>
   rewrite_content ''static unsigned long long n = 0;'' = (''static cforge_ulong_t n = 0;'', 1)"
proof -
  have noskip: "\<not> should_skip_line (''static '' @ ''unsigned long long'' @ '' n = 0;'')"
    by code_simp
  have left: "\<not> is_word (last ''static '')" and right: "\<not> is_word (hd '' n = 0;'')"
    by code_simp+
  have parts: "re_sub (type_pattern ''unsigned long long'') ''cforge_ulong_t'' ''static '' = ''static '' \<and>
      re_sub (type_pattern ''unsigned long long'') ''cforge_ulong_t'' '' n = 0;'' = '' n = 0;''"
    by code_simp
  have whole: "rewrite_content ''static unsigned long long n = 0;'' = (''static cforge_ulong_t n = 0;'', 1)"
    by code_simp
  from longest_pattern_first [where pre = "''static ''" and post = "'' n = 0;''" and changes = 0]
    noskip left right
  have "apply_mapping (hd sorted_mappings) (''static '' @ ''unsigned long long'' @ '' n = 0;'', 0) =
        (re_sub (type_pattern ''unsigned long long'') ''cforge_ulong_t'' ''static '' @ ''cforge_ulong_t'' @
         re_sub (type_pattern ''unsigned long long'') ''cforge_ulong_t'' '' n = 0;'', 0 + 1) \<and>
      str_in ''cforge_ulong_t'' (fst (rewrite_line (''static '' @ ''unsigned long long'' @ '' n = 0;'') 0)) \<and>
      0 < snd (rewrite_line (''static '' @ ''unsigned long long'' @ '' n = 0;'') 0)"
    by blast
  with parts noskip left right whole show ?thesis
    by simp
qed

text \<open>
  C4 as stated fails for lines that only hold the text \<open>unsigned long long x;\<close>
  somewhere: in \<open>my_unsigned long long x;\<close> the words \<open>long long\<close> are replaced behind
  the identifier \<open>my_unsigned\<close>, and \<open>std::f(); unsigned long long x;\<close> is skipped and
  stays as it is. Neither line that comes out holds \<open>cforge_ulong_t\<close>.
\<close>

theorem longest_pattern_first_counterexample:
  "str_in ''unsigned long long x;'' ''my_unsigned long long x;'' \<and>
   \<not> should_skip_line ''my_unsigned long long x;'' \<and>
   rewrite_content ''my_unsigned long long x;'' = (''my_unsigned cforge_long_t x;'', 1) \<and>
   \<not> str_in ''cforge_ulong_t'' ''my_unsigned cforge_long_t x;'' \<and>
   str_in ''unsigned long long x;'' ''std::f(); unsigned long long x;'' \<and>
   rewrite_content ''std::f(); unsigned long long x;'' = (''std::f(); unsigned long long x;'', 0)"
  by code_simp

text \<open>
  C5. One application of a pattern adds one to the counter when it changed the line and
  nothing otherwise, however many occurrences it replaced. The line
  \<open>unsigned char buf[size_t(10)];\<close> has both types replaced and counts two changes;
  the line \<open>int a; int b;\<close> has two occurrences replaced and counts one.
\<close>

theorem one_change_per_pattern:
  "snd (apply_mapping m (line, changes)) =
     changes + (if fst (apply_mapping m (line, changes)) \<noteq> line then 1 else 0) \<and>
   \<not> should_skip_line ''unsigned char buf[size_t(10)];'' \<and>
   rewrite_content ''unsigned char buf[size_t(10)];'' =
     (''cforge_byte_t buf[cforge_size_t(10)];'', 2) \<and>
   rewrite_content ''int a; int b;'' = (''cforge_int_t a; cforge_int_t b;'', 1)"
proof -
  have step: "snd (apply_mapping m (line, changes)) =
     changes + (if fst (apply_mapping m (line, changes)) \<noteq> line then 1 else 0)"
    by (simp add: apply_mapping_def Let_def)
  have noskip: "\<not> should_skip_line ''unsigned char buf[size_t(10)];''"
    by code_simp
  have two: "rewrite_content ''unsigned char buf[size_t(10)];'' =
     (''cforge_byte_t buf[cforge_size_t(10)];'', 2)"
    by code_simp
  have one: "rewrite_content ''int a; int b;'' = (''cforge_int_t a; cforge_int_t b;'', 1)"
    by code_simp
  from step noskip two one show ?thesis
    by blast
qed

text \<open>
  C6. Rewriting the content that a rewrite produced changes nothing and counts no change.
  A line comes out of the rewrite either as it went in, with the counter as it was, or
  as a line that the line classifier skips (it holds \<open>cforge_\<close>). For the file: after a
  run in apply mode, a second run in apply mode leaves the file system as it is and
  returns 0.
\<close>

theorem rewrite_idempotent:
  "rewrite_content (fst (rewrite_content content)) = (fst (rewrite_content content), 0) \<and>
   (rewrite_line line changes = (line, changes) \<or>
    should_skip_line (fst (rewrite_line line changes))) \<and>
   (replace_types_in_file files filepath False = Inr (files1, printed, n) \<longrightarrow>
      replace_types_in_file files1 filepath False =
        Inr (files1,
             case read_text files filepath of Inl e \<Rightarrow> [Error_reading filepath e] | Inr c \<Rightarrow> [],
             0))"
  using rewrite_line_cases [of line changes] second_run [of files filepath files1 printed n]
  by (auto simp: rewrite_content_def case_prod_beta split_join_rewritten rewrite_lines_idem)

theorem rewrite_idempotent_witness:
  "rewrite_content ''int x;'' = (''cforge_int_t x;'', 1) \<and>
   rewrite_content ''cforge_int_t x;'' = (''cforge_int_t x;'', 0) \<and>
   replace_types_in_file
     \<lparr>entries = (\<lambda>p. Entry (Inl ''No such file'') False)
                  ([''src'', ''a.c''] := Entry (Inr ''int x;'') True),
      written = []\<rparr>
     [''src'', ''a.c''] False
   = Inr (\<lparr>entries = (\<lambda>p. Entry (Inl ''No such file'') False)
                        ([''src'', ''a.c''] := Entry (Inr ''cforge_int_t x;'') True),
            written = [([''src'', ''a.c''], ''cforge_int_t x;'')]\<rparr>,
          [Modified [''src'', ''a.c''] 1], 1) \<and>
   replace_types_in_file
     \<lparr>entries = (\<lambda>p. Entry (Inl ''No such file'') False)
                  ([''src'', ''a.c''] := Entry (Inr ''cforge_int_t x;'') True),
      written = [([''src'', ''a.c''], ''cforge_int_t x;'')]\<rparr>
     [''src'', ''a.c''] False
   = Inr (\<lparr>entries = (\<lambda>p. Entry (Inl ''No such file'') False)
                        ([''src'', ''a.c''] := Entry (Inr ''cforge_int_t x;'') True),
            written = [([''src'', ''a.c''], ''cforge_int_t x;'')]\<rparr>,
          [], 0)"
proof -
  let ?a = "\<lparr>entries = (\<lambda>p. Entry (Inl ''No such file'') False)
                  ([''src'', ''a.c''] := Entry (Inr ''int x;'') True),
             written = []\<rparr>"
  let ?a' = "\<lparr>entries = (\<lambda>p. Entry (Inl ''No such file'') False)
                  ([''src'', ''a.c''] := Entry (Inr ''cforge_int_t x;'') True),
              written = [([''src'', ''a.c''], ''cforge_int_t x;'')]\<rparr>"
  have first: "rewrite_content ''int x;'' = (''cforge_int_t x;'', 1)"
    by code_simp
  have lines: "rewrite_lines (split_nl ''int x;'') 0 = ([''cforge_int_t x;''], 1)"
    by code_simp
  have run: "replace_types_in_file ?a [''src'', ''a.c''] False =
      Inr (?a', [Modified [''src'', ''a.c''] 1], 1)"
    by (simp add: replace_types_in_file_def read_text_def write_text_def lines Let_def
        del: split_nl.simps rewrite_lines.simps)
  have "read_text ?a [''src'', ''a.c''] = Inr ''int x;''"
    by (simp add: read_text_def)
  with rewrite_idempotent [of "''int x;''" "''int x;''" 0 ?a "[''src'', ''a.c'']" ?a'
      "[Modified [''src'', ''a.c''] 1]" 1] first run
  show ?thesis
    by simp
qed

section \<open>The declaration scan\<close>

text \<open>
  C7. \<open>class Foo {};\<close> matches the pattern for classes and opens and closes a brace on
  the same line; the scan reports it, and likewise \<open>class B { int x; };\<close>. Its check
  for a definition (\<open>'{' in stripped and '}' not in stripped\<close>, under the comment
  \<open>Skip if it's a definition (has body)\<close>) leaves out only a line whose brace stays
  open, such as \<open>class B {\<close>.
\<close>

theorem one_line_definition_reported:
  "strip ''class Foo {};'' = ''class Foo {};'' \<and>
   re_match (hd declaration_patterns) ''class Foo {};'' \<and>
   str_in ''{'' ''class Foo {};'' \<and> str_in ''}'' ''class Foo {};'' \<and>
   find_declarations_in_source ''class Foo {};'' [''a.cpp''] = [(1, ''class Foo {};'')] \<and>
   find_declarations_in_source ''class B { int x; };'' [''a.cpp''] = [(1, ''class B { int x; };'')] \<and>
   find_declarations_in_source ''class B {'' [''a.cpp''] = []"
  by code_simp

section \<open>Files and the run over them\<close>

text \<open>
  C8. A dry run returns the file system it was given, whatever the count. A run in
  apply mode on a file with no change returns the file system it was given, also when
  the file cannot be written: no write is tried. With a positive count the run in apply
  mode is the write of the new content: it fails when the write fails and otherwise
  returns the file system of the write, which is never the one before it. When the file
  cannot be read, both modes return the file system they were given.
\<close>

theorem write_only_when_changed:
  "(case read_text files filepath of
      Inl cause \<Rightarrow>
        replace_types_in_file files filepath dry_run =
          Inr (files, [Error_reading filepath cause], 0)
    | Inr content \<Rightarrow>
        (let new_content = fst (rewrite_content content); changes = snd (rewrite_content content)
         in replace_types_in_file files filepath True =
              Inr (files, if changes = 0 then [] else [Would_modify filepath changes], changes) \<and>
            replace_types_in_file files filepath False =
              (if changes = 0 then Inr (files, [], 0)
               else case write_text files filepath new_content of
                      Inl x \<Rightarrow> Inl x
                    | Inr files' \<Rightarrow> Inr (files', [Modified filepath changes], changes)))) \<and>
   write_text files filepath text \<noteq> Inr files"
proof -
  have "write_text files filepath text \<noteq> Inr files"
  proof
    assume "write_text files filepath text = Inr files"
    then have "written files @ [(filepath, text)] = written files"
      by (auto simp: write_text_def split: if_splits dest: arg_cong [where f = written])
    then show False
      by simp
  qed
  then show ?thesis
    by (auto simp: replace_types_in_file_def rewrite_content_def Let_def
        split: sum.splits prod.splits)
qed

theorem write_only_when_changed_witness:
  "replace_types_in_file
     \<lparr>entries = (\<lambda>p. Entry (Inl ''No such file'') False)
                  ([''src'', ''b.c''] := Entry (Inr ''// nothing'') False),
      written = []\<rparr>
     [''src'', ''b.c''] False
   = Inr (\<lparr>entries = (\<lambda>p. Entry (Inl ''No such file'') False)
                        ([''src'', ''b.c''] := Entry (Inr ''// nothing'') False),
            written = []\<rparr>,
          [], 0) \<and>
   replace_types_in_file
     \<lparr>entries = (\<lambda>p. Entry (Inl ''No such file'') False)
                  ([''src'', ''a.c''] := Entry (Inr ''int x;'') False),
      written = []\<rparr>
     [''src'', ''a.c''] True
   = Inr (\<lparr>entries = (\<lambda>p. Entry (Inl ''No such file'') False)
                        ([''src'', ''a.c''] := Entry (Inr ''int x;'') False),
            written = []\<rparr>,
          [Would_modify [''src'', ''a.c''] 1], 1) \<and>
   replace_types_in_file
     \<lparr>entries = (\<lambda>p. Entry (Inl ''No such file'') False)
                  ([''src'', ''a.c''] := Entry (Inr ''int x;'') False),
      written = []\<rparr>
     [''src'', ''a.c''] False
   = Inl (Write_failed [''src'', ''a.c''])"
proof -
  let ?b = "\<lparr>entries = (\<lambda>p. Entry (Inl ''No such file'') False)
                  ([''src'', ''b.c''] := Entry (Inr ''// nothing'') False),
             written = []\<rparr>"
  let ?a = "\<lparr>entries = (\<lambda>p. Entry (Inl ''No such file'') False)
                  ([''src'', ''a.c''] := Entry (Inr ''int x;'') False),
             written = []\<rparr>"
  have rb: "rewrite_content ''// nothing'' = (''// nothing'', 0)"
    by code_simp
  have ra: "rewrite_content ''int x;'' = (''cforge_int_t x;'', 1)"
    by code_simp
  have readb: "read_text ?b [''src'', ''b.c''] = Inr ''// nothing''"
    by (simp add: read_text_def)
  have reada: "read_text ?a [''src'', ''a.c''] = Inr ''int x;''"
    by (simp add: read_text_def)
  have fails: "write_text ?a [''src'', ''a.c''] ''cforge_int_t x;'' = Inl (Write_failed [''src'', ''a.c''])"
    by (simp add: write_text_def)
  from write_only_when_changed [of ?b "[''src'', ''b.c'']" False] readb rb
  have b: "replace_types_in_file ?b [''src'', ''b.c''] False = Inr (?b, [], 0)"
    by (simp add: Let_def)
  from write_only_when_changed [of ?a "[''src'', ''a.c'']" False] reada ra fails
  have a: "replace_types_in_file ?a [''src'', ''a.c''] True =
        Inr (?a, [Would_modify [''src'', ''a.c''] 1], 1) \<and>
      replace_types_in_file ?a [''src'', ''a.c''] False = Inl (Write_failed [''src'', ''a.c''])"
    by (simp add: Let_def)
  from a b show ?thesis
    by simp
qed

text \<open>
  C9. When reading the file fails, \<open>replace_types_in_file\<close> returns 0, prints the path
  with the cause and leaves the file system alone; the loop of \<open>main\<close> goes on with the
  next file, the total as it was.
\<close>

theorem read_failure_recovered:
  "read_text files filepath = Inl cause \<Longrightarrow>
     replace_types_in_file files filepath dry_run = Inr (files, [Error_reading filepath cause], 0) \<and>
     replace_loop (filepath # rest) dry_run (files, out, n) =
       replace_loop rest dry_run
         (files, if should_skip_file filepath then out else out @ [Error_reading filepath cause], n)"
proof -
  assume "read_text files filepath = Inl cause"
  then have caught: "replace_types_in_file files filepath dry_run =
      Inr (files, [Error_reading filepath cause], 0)"
    by (simp add: replace_types_in_file_def)
  show ?thesis
  proof (cases "should_skip_file filepath")
    case True
    with caught show ?thesis
      by simp
  next
    case False
    with caught show ?thesis
      by simp
  qed
qed

theorem read_failure_recovered_witness:
  "read_text \<lparr>entries = \<lambda>p. Entry (Inl ''No such file'') False, written = []\<rparr>
     [''src'', ''gone.c''] = Inl ''No such file'' \<and>
   replace_types_in_file \<lparr>entries = \<lambda>p. Entry (Inl ''No such file'') False, written = []\<rparr>
     [''src'', ''gone.c''] False =
     Inr (\<lparr>entries = \<lambda>p. Entry (Inl ''No such file'') False, written = []\<rparr>,
          [Error_reading [''src'', ''gone.c''] ''No such file''], 0) \<and>
   main_replace_types \<lparr>entries = \<lambda>p. Entry (Inl ''No such file'') False, written = []\<rparr>
     [[''src'', ''gone.c'']] False =
     Inr (\<lparr>entries = \<lambda>p. Entry (Inl ''No such file'') False, written = []\<rparr>,
          [Error_reading [''src'', ''gone.c''] ''No such file'', Total_changes 0])"
proof -
  have r: "read_text \<lparr>entries = \<lambda>p. Entry (Inl ''No such file'') False, written = []\<rparr>
      [''src'', ''gone.c''] = Inl ''No such file''"
    by (simp add: read_text_def)
  have s: "\<not> should_skip_file [''src'', ''gone.c'']"
    by code_simp
  from read_failure_recovered [OF r, of False "[]" "[]" 0] r s show ?thesis
    by (simp add: main_replace_types_def)
qed

end
